theory Spec2Isabelle
  imports Main "HOL-Library.AList"
begin

section \<open>Python text\<close>

text \<open>
  A Python \<open>str\<close> is a sequence of Unicode code points. The model uses \<open>string\<close> and
  reads a \<open>char\<close> as one of the code points U+0000 .. U+00FF; text with code points
  above U+00FF is outside the model. Within that range the character classes below
  are the ones of CPython: \<open>str.isspace\<close> holds of the twelve characters listed, and
  \<open>str.isdigit\<close> holds of the ten decimal digits and of the superscript digits
  U+00B2, U+00B3 and U+00B9.
\<close>

definition isspace :: "char \<Rightarrow> bool" where
  "isspace c = (c \<in> set [CHR 0x09, CHR 0x0A, CHR 0x0B, CHR 0x0C, CHR 0x0D,
                          CHR 0x1C, CHR 0x1D, CHR 0x1E, CHR 0x1F, CHR 0x20,
                          CHR 0x85, CHR 0xA0])"

definition is_decimal :: "char \<Rightarrow> bool" where
  "is_decimal c = (c \<in> set ''0123456789'')"

definition isdigit_char :: "char \<Rightarrow> bool" where
  "isdigit_char c = (is_decimal c \<or> c \<in> set [CHR 0xB2, CHR 0xB3, CHR 0xB9])"

text \<open>\<open>s.isdigit()\<close>: every character is a digit and there is at least one.\<close>

definition isdigit :: "string \<Rightarrow> bool" where
  "isdigit s = (s \<noteq> [] \<and> list_all isdigit_char s)"

text \<open>\<open>s.strip(chars)\<close> with the set of characters given as a predicate.\<close>

definition strip_by :: "(char \<Rightarrow> bool) \<Rightarrow> string \<Rightarrow> string" where
  "strip_by P s = rev (dropWhile P (rev (dropWhile P s)))"

text \<open>\<open>s.strip()\<close> removes leading and trailing whitespace.\<close>

definition strip :: "string \<Rightarrow> string" where
  "strip s = strip_by isspace s"

text \<open>\<open>s.startswith(p)\<close> and \<open>s.endswith(p)\<close>.\<close>

definition startswith :: "string \<Rightarrow> string \<Rightarrow> bool" where
  "startswith s p = (take (length p) s = p)"

definition endswith :: "string \<Rightarrow> string \<Rightarrow> bool" where
  "endswith s p = (length p \<le> length s \<and> drop (length s - length p) s = p)"

text \<open>
  \<open>s.split(c)\<close> for a separator of one character: the pieces between the
  occurrences of \<open>c\<close>, never an empty list.
\<close>

fun split_acc :: "char \<Rightarrow> string \<Rightarrow> string \<Rightarrow> string list" where
  "split_acc c cur [] = [rev cur]"
| "split_acc c cur (x # xs) =
     (if x = c then rev cur # split_acc c [] xs else split_acc c (x # cur) xs)"

definition split :: "char \<Rightarrow> string \<Rightarrow> string list" where
  "split c s = split_acc c [] s"

text \<open>\<open>s.split(c, 1)\<close>: at most one cut, at the first occurrence of \<open>c\<close>.\<close>

definition split1 :: "char \<Rightarrow> string \<Rightarrow> string list" where
  "split1 c s =
     (if c \<in> set s then [takeWhile (\<lambda>x. x \<noteq> c) s, tl (dropWhile (\<lambda>x. x \<noteq> c) s)]
      else [s])"

text \<open>The slice \<open>s[1:-2]\<close>: the characters at the indices \<open>1 \<le> i < len(s) - 2\<close>.\<close>

definition slice_1_m2 :: "string \<Rightarrow> string" where
  "slice_1_m2 s = drop 1 (take (length s - 2) s)"

text \<open>
  \<open>int(s)\<close> on a string that passed \<open>s.isdigit()\<close>, the only strings the program
  converts: the decimal value when every character is a decimal digit, and
  \<open>ValueError\<close> when a superscript digit occurs (they are digits, not decimals) or
  when the string is longer than 4300 digits (the limit of CPython 3.11 and later in
  its default setting).
\<close>

datatype error = ValueError | AttributeError | FetchError | FileNotFoundError

definition digit_val :: "char \<Rightarrow> int" where
  "digit_val c = int (of_char c) - 48"

definition py_int :: "string \<Rightarrow> error + int" where
  "py_int s =
     (if s \<noteq> [] \<and> list_all is_decimal s \<and> length s \<le> 4300
      then Inr (foldl (\<lambda>a c. 10 * a + digit_val c) 0 s)
      else Inl ValueError)"

section \<open>Header scanner and movetext skipper\<close>

text \<open>
  A stream is the list of the lines not yet read; \<open>readline\<close> returns the first of them
  with its terminator, or the empty string at the end of the stream. The header set is
  a Python dict: keys in insertion order, an assignment to a present key replaces its
  value in place.
\<close>

type_synonym headers = "(string \<times> string) list"

fun read_headers_loop :: "headers \<Rightarrow> string list \<Rightarrow> error + (headers \<times> string list)" where
  "read_headers_loop hs [] = Inr (hs, [])"
| "read_headers_loop hs (line # rest) =
     (if line = [] \<or> strip line = [] then Inr (hs, rest)
      else if startswith line ''[''
      then (case split1 (CHR '' '') (slice_1_m2 line) of
              [key, val] \<Rightarrow>
                read_headers_loop (AList.update key (strip_by (\<lambda>c. c = CHR 0x22) val) hs) rest
            | _ \<Rightarrow> Inl ValueError)
      else read_headers_loop hs rest)"

definition read_headers_only :: "string list \<Rightarrow> error + (headers \<times> string list)" where
  "read_headers_only stream = read_headers_loop [] stream"

fun skip_moves :: "string list \<Rightarrow> string list" where
  "skip_moves [] = []"
| "skip_moves (line # rest) =
     (if line = [] \<or> strip line = [] then rest else skip_moves rest)"

section \<open>Filter predicate\<close>

text \<open>
  \<open>headers_pass\<close> is a chain of \<open>and\<close>: it stops at the first falsy operand, so the
  second \<open>int\<close> is only evaluated when the first comparison held. The model returns the
  truth value of the result (the program only branches on it), or the exception.
\<close>

definition headers_pass :: "headers \<Rightarrow> int \<Rightarrow> error + bool" where
  "headers_pass hs min_elo =
     (case map_of hs ''WhiteElo'' of
        None \<Rightarrow> Inr False
      | Some w \<Rightarrow>
          if w = [] then Inr False
          else (case map_of hs ''BlackElo'' of
                  None \<Rightarrow> Inr False
                | Some b \<Rightarrow>
                    if b = [] then Inr False
                    else if \<not> isdigit w then Inr False
                    else if \<not> isdigit b then Inr False
                    else (case py_int w of
                            Inl e \<Rightarrow> Inl e
                          | Inr wi \<Rightarrow>
                              if \<not> wi \<ge> min_elo then Inr False
                              else (case py_int b of
                                      Inl e \<Rightarrow> Inl e
                                    | Inr bi \<Rightarrow>
                                        if \<not> bi \<ge> min_elo then Inr False
                                        else Inr (map_of hs ''Event'' = Some ''Rated Classical game'')))))"

section \<open>Completion ledger\<close>

text \<open>
  The ledger is a text file, \<open>None\<close> while it does not exist. Python reads it with
  universal newlines: \<open>\r\n\<close> and a lone \<open>\r\<close> arrive as \<open>\n\<close>, and iterating
  over the file yields the lines with their terminator, the last one possibly without.
\<close>

fun universal_newlines :: "string \<Rightarrow> string" where
  "universal_newlines [] = []"
| "universal_newlines [c] = (if c = CHR 0x0D then [CHR 0x0A] else [c])"
| "universal_newlines (c # d # cs) =
     (if c = CHR 0x0D
      then (if d = CHR 0x0A then CHR 0x0A # universal_newlines cs
            else CHR 0x0A # universal_newlines (d # cs))
      else c # universal_newlines (d # cs))"

fun lines_acc :: "string \<Rightarrow> string \<Rightarrow> string list" where
  "lines_acc cur [] = (if cur = [] then [] else [rev cur])"
| "lines_acc cur (x # xs) =
     (if x = CHR 0x0A then rev (x # cur) # lines_acc [] xs else lines_acc (x # cur) xs)"

definition file_lines :: "string \<Rightarrow> string list" where
  "file_lines content = lines_acc [] (universal_newlines content)"

definition load_processed_files :: "string option \<Rightarrow> string set" where
  "load_processed_files file =
     (case file of
        None \<Rightarrow> {}
      | Some content \<Rightarrow> set (filter (\<lambda>l. l \<noteq> []) (map strip (file_lines content))))"

text \<open>Opening for append creates the file; the write adds the name and a newline.\<close>

definition mark_file_processed :: "string option \<Rightarrow> string \<Rightarrow> string option" where
  "mark_file_processed file name =
     Some ((case file of None \<Rightarrow> [] | Some content \<Rightarrow> content) @ name @ [CHR 0x0A])"

section \<open>Output table\<close>

datatype csv_line =
  Header
| Row (row_game_id: int) (row_fen: string) (row_move: string) (row_result: "string option")

text \<open>\<open>setup_output\<close> writes the header row when the table does not exist yet.\<close>

definition setup_output :: "csv_line list option \<Rightarrow> csv_line list option" where
  "setup_output csv = (case csv of None \<Rightarrow> Some [Header] | Some ls \<Rightarrow> Some ls)"

section \<open>Archive enumerator and download manager\<close>

text \<open>The lines of the index, as \<open>iter_lines\<close> hands them over, one at a time.\<close>

fun iter_pgn_urls :: "string list \<Rightarrow> string list" where
  "iter_pgn_urls [] = []"
| "iter_pgn_urls (line # ls) =
     (if line \<noteq> [] \<and> endswith line ''.pgn.zst''
      then strip line # iter_pgn_urls ls
      else iter_pgn_urls ls)"

text \<open>\<open>url.split("/")[-1]\<close>, computed by \<open>main\<close> and by \<open>download_file\<close> alike.\<close>

definition filename :: "string \<Rightarrow> string" where
  "filename url = last (split (CHR ''/'') url)"

text \<open>
  The temporary directory maps a file name to the decompressed lines of the archive
  stored under it; the remote side maps a URL to the archive it serves, \<open>None\<close> when
  the request fails. An archive already in the directory is reused as it is. A URL
  that ends in a slash has the empty file name, for which the program finds the
  directory itself; no enumerated URL is of that kind (they end in \<open>.pgn.zst\<close>), and
  the model does not treat the empty name apart.
\<close>

type_synonym archive = "string list"

definition download_file ::
  "(string \<Rightarrow> archive option) \<Rightarrow> string \<Rightarrow> (string \<Rightarrow> archive option)
   \<Rightarrow> error + (string \<Rightarrow> archive option)" where
  "download_file remote url tmp =
     (let name = filename url in
      case tmp name of
        Some _ \<Rightarrow> Inr tmp
      | None \<Rightarrow>
          (case remote url of
             None \<Rightarrow> Inl FetchError
           | Some a \<Rightarrow> Inr (tmp(name \<mapsto> a))))"

section \<open>Stream processor\<close>

text \<open>
  The chess library is outside the program. It is a parameter: a starting position,
  \<open>push\<close>, \<open>fen\<close>, \<open>uci\<close> and the game parser. The parser reads from the cursor;
  it answers \<open>None\<close> when it finds no game, otherwise the mainline moves and the
  number of lines it consumed, so that the cursor only ever advances.
\<close>

record ('b, 'm) chess_lib =
  start_board :: 'b
  push :: "'b \<Rightarrow> 'm \<Rightarrow> 'b"
  fen :: "'b \<Rightarrow> string"
  uci :: "'m \<Rightarrow> string"
  read_game :: "string list \<Rightarrow> ('m list \<times> nat) option"

text \<open>
  The variables of \<open>process_pgn_file\<close>: the counter, and the rows written to the
  table so far. \<open>ids\<close> is instrumentation: the value of the counter attached to each
  game met, in order. The \<open>processed\<close> counter only drives the progress message and
  is left out with it.
\<close>

record scan =
  game_id :: int
  rows :: "csv_line list"
  ids :: "int list"

text \<open>The rows of one kept game: the loop over the mainline moves.\<close>

fun emit_rows ::
  "('b, 'm) chess_lib \<Rightarrow> int \<Rightarrow> string option \<Rightarrow> 'b \<Rightarrow> 'm list \<Rightarrow> csv_line list" where
  "emit_rows lib gid res board [] = []"
| "emit_rows lib gid res board (m # ms) =
     Row gid (fen lib board) (uci lib m) res # emit_rows lib gid res (push lib board m) ms"

text \<open>
  One game, once its header set is read (lines 145 to 160): the counter advances, then
  the game is parsed and replayed, or its movetext is skipped. The result is the
  exception raised if any, the cursor and the variables.
\<close>

definition consume_game ::
  "('b, 'm) chess_lib \<Rightarrow> int \<Rightarrow> headers \<Rightarrow> string list \<Rightarrow> scan
   \<Rightarrow> error option \<times> string list \<times> scan" where
  "consume_game lib min_elo hs stream st =
     (let st1 = st\<lparr>game_id := game_id st + 1, ids := ids st @ [game_id st + 1]\<rparr> in
      case headers_pass hs min_elo of
        Inl e \<Rightarrow> (Some e, stream, st1)
      | Inr keep \<Rightarrow>
          if keep
          then (case read_game lib stream of
                  None \<Rightarrow> (Some AttributeError, stream, st1)
                | Some (moves, n) \<Rightarrow>
                    (None, drop n stream,
                     st1\<lparr>rows := rows st1 @
                        emit_rows lib (game_id st1) (map_of hs ''Result'') (start_board lib) moves\<rparr>))
          else (None, skip_moves stream, st1))"

text \<open>\<open>limit and n >= limit\<close> for an optional limit: \<open>None\<close> and \<open>0\<close> are falsy.\<close>

definition reached :: "int option \<Rightarrow> int \<Rightarrow> bool" where
  "reached limit n = (case limit of None \<Rightarrow> False | Some m \<Rightarrow> m \<noteq> 0 \<and> n \<ge> m)"

datatype status = Drained | Stopped | Raised error

lemma read_headers_loop_shorter:
  "read_headers_loop hs stream = Inr (hs', rest) \<Longrightarrow> stream \<noteq> [] \<Longrightarrow> length rest < length stream"
proof (induction stream arbitrary: hs)
  case Nil
  then show ?case by simp
next
  case (Cons line ls)
  show ?case
  proof (cases ls)
    case Nil
    with Cons.prems show ?thesis
      by (auto split: if_splits list.splits)
  next
    case (Cons l ls')
    with Cons.prems Cons.IH show ?thesis
      by (fastforce split: if_splits list.splits)
  qed
qed

lemma read_headers_only_shorter:
  assumes "read_headers_only stream = Inr (hs, rest)" and "hs \<noteq> []"
  shows "length rest < length stream"
proof (cases stream)
  case Nil
  with assms show ?thesis by (simp add: read_headers_only_def)
next
  case (Cons line ls)
  with assms show ?thesis
    using read_headers_loop_shorter [of "[]" stream hs rest]
    by (simp add: read_headers_only_def)
qed

lemma skip_moves_length: "length (skip_moves stream) \<le> length stream"
  by (induction stream) auto

lemma consume_game_length:
  "consume_game lib min_elo hs stream st = (None, stream', st') \<Longrightarrow> length stream' \<le> length stream"
  using skip_moves_length [of stream]
  by (auto simp: consume_game_def Let_def split: sum.splits if_splits option.splits)

text \<open>The \<open>while True\<close> loop of \<open>process_pgn_file\<close>, with the cursor it leaves.\<close>

function drain ::
  "('b, 'm) chess_lib \<Rightarrow> int \<Rightarrow> int option \<Rightarrow> string list \<Rightarrow> scan
   \<Rightarrow> status \<times> string list \<times> scan" where
  "drain lib min_elo max_games stream st =
     (case read_headers_only stream of
        Inl e \<Rightarrow> (Raised e, stream, st)
      | Inr (hs, rest) \<Rightarrow>
          if hs = [] then (Drained, rest, st)
          else (case consume_game lib min_elo hs rest st of
                  (Some e, rest', st') \<Rightarrow> (Raised e, rest', st')
                | (None, rest', st') \<Rightarrow>
                    if reached max_games (game_id st') then (Stopped, rest', st')
                    else drain lib min_elo max_games rest' st'))"
  by pat_completeness auto
termination
proof (relation "measure (\<lambda>(lib, min_elo, max_games, stream, st). length stream)", goal_cases)
  case 1
  show ?case by simp
next
  case (2 lib min_elo max_games stream st x hs rest p e_opt rest' st')
  then show ?case
    using read_headers_only_shorter [of stream hs rest]
      consume_game_length [of lib min_elo hs rest st rest' st']
    by (cases e_opt) auto
qed

text \<open>
  \<open>process_pgn_file\<close> opens the table for append (creating it if need be) and the
  archive for reading, runs the loop from \<open>start_game_id\<close> and returns the counter.
  An exception leaves the rows written before it in the table.
\<close>

definition process_pgn_file ::
  "('b, 'm) chess_lib \<Rightarrow> archive option \<Rightarrow> csv_line list option \<Rightarrow> int \<Rightarrow> int option
   \<Rightarrow> int \<Rightarrow> int list \<Rightarrow> (error + int) \<times> csv_line list option \<times> int list" where
  "process_pgn_file lib pgn csv min_elo max_games start_game_id seen =
     (let old = (case csv of None \<Rightarrow> [] | Some ls \<Rightarrow> ls) in
      case pgn of
        None \<Rightarrow> (Inl FileNotFoundError, Some old, seen)
      | Some stream \<Rightarrow>
          (case drain lib min_elo max_games stream
                  \<lparr>game_id = start_game_id, rows = [], ids = seen\<rparr> of
             (Raised e, _, st) \<Rightarrow> (Inl e, Some (old @ rows st), ids st)
           | (_, _, st) \<Rightarrow> (Inr (game_id st), Some (old @ rows st), ids st)))"

section \<open>Pipeline orchestrator\<close>

record args =
  min_elo :: int
  max_games :: "int option"
  downloads :: "int option"

text \<open>
  The files the run touches and the variables of \<open>main\<close>; \<open>next_game_id\<close> is
  its \<open>game_id\<close>. \<open>seen\<close> is the instrumentation of the stream processor,
  carried across archives.
\<close>

record run =
  ledger_file :: "string option"
  csv_file :: "csv_line list option"
  tmp_dir :: "string \<Rightarrow> archive option"
  processed_files :: "string set"
  next_game_id :: int
  downloaded :: int
  seen :: "int list"

text \<open>The \<open>for\<close> loop of \<open>main\<close> over the enumerated URLs.\<close>

fun main_loop ::
  "('b, 'm) chess_lib \<Rightarrow> args \<Rightarrow> (string \<Rightarrow> archive option) \<Rightarrow> string list \<Rightarrow> run
   \<Rightarrow> error option \<times> run" where
  "main_loop lib a remote [] s = (None, s)"
| "main_loop lib a remote (url # urls) s =
     (if reached (downloads a) (downloaded s) then (None, s)
      else
        let name = filename url in
        if name \<in> processed_files s then main_loop lib a remote urls s
        else
          (case download_file remote url (tmp_dir s) of
             Inl e \<Rightarrow> (Some e, s)
           | Inr tmp \<Rightarrow>
               let s1 = s\<lparr>tmp_dir := tmp, downloaded := downloaded s + 1\<rparr> in
               (case process_pgn_file lib (tmp name) (csv_file s1) (min_elo a) (max_games a)
                       (next_game_id s1) (seen s1) of
                  (Inl e, csv, sn) \<Rightarrow> (Some e, s1\<lparr>csv_file := csv, seen := sn\<rparr>)
                | (Inr g, csv, sn) \<Rightarrow>
                    let s2 = s1\<lparr>csv_file := csv, seen := sn, next_game_id := g,
                               ledger_file := mark_file_processed (ledger_file s1) name,
                               processed_files := insert name (processed_files s1),
                               tmp_dir := (tmp_dir s1)(name := None)\<rparr> in
                    if reached (max_games a) (next_game_id s2) then (None, s2)
                    else main_loop lib a remote urls s2)))"

text \<open>
  \<open>main\<close>: the table is set up, the ledger loaded, the counters start at zero; then
  the index is fetched (\<open>None\<close> when the request fails) and the loop runs.
\<close>

definition main ::
  "('b, 'm) chess_lib \<Rightarrow> args \<Rightarrow> string list option \<Rightarrow> (string \<Rightarrow> archive option)
   \<Rightarrow> string option \<Rightarrow> csv_line list option \<Rightarrow> (string \<Rightarrow> archive option)
   \<Rightarrow> error option \<times> run" where
  "main lib a index remote ledger csv tmp =
     (let s0 = \<lparr>ledger_file = ledger, csv_file = setup_output csv, tmp_dir = tmp,
                processed_files = load_processed_files ledger,
                next_game_id = 0, downloaded = 0, seen = []\<rparr> in
      case index of
        None \<Rightarrow> (Some FetchError, s0)
      | Some ls \<Rightarrow> main_loop lib a remote (iter_pgn_urls ls) s0)"

section \<open>Facts about the text operations\<close>

lemma strip_by_empty_iff: "strip_by P s = [] \<longleftrightarrow> (\<forall>c \<in> set s. P c)"
proof -
  have "strip_by P s = [] \<longleftrightarrow> dropWhile P (rev (dropWhile P s)) = []"
    by (simp add: strip_by_def)
  also have "\<dots> \<longleftrightarrow> (\<forall>c \<in> set (dropWhile P s). P c)"
    by simp
  also have "\<dots> \<longleftrightarrow> dropWhile P s = []"
  proof
    assume a: "\<forall>c \<in> set (dropWhile P s). P c"
    show "dropWhile P s = []"
    proof (rule ccontr)
      assume "dropWhile P s \<noteq> []"
      then have "\<not> P (hd (dropWhile P s))" "hd (dropWhile P s) \<in> set (dropWhile P s)"
        by (simp_all add: hd_dropWhile)
      with a show False by blast
    qed
  next
    assume "dropWhile P s = []"
    then show "\<forall>c \<in> set (dropWhile P s). P c" by (simp del: dropWhile_eq_Nil_conv)
  qed
  also have "\<dots> \<longleftrightarrow> (\<forall>c \<in> set s. P c)"
    by simp
  finally show ?thesis .
qed

lemma not_blank_bracket:
  assumes "startswith line ''[''"
  shows "line \<noteq> []" and "strip line \<noteq> []"
proof -
  from assms obtain t where t: "line = CHR ''['' # t"
    by (cases line) (simp_all add: startswith_def)
  show "line \<noteq> []" by (simp add: t)
  show "strip line \<noteq> []"
    unfolding strip_def strip_by_def by (simp add: t isspace_def)
qed

lemma set_slice: "set (slice_1_m2 s) \<subseteq> set s"
  unfolding slice_1_m2_def
  by (meson set_drop_subset set_take_subset subset_trans)

section \<open>The header scanner on a malformed tag line\<close>

text \<open>
  Claim C10. The scanner is not total: a line that starts with \<open>[\<close> and holds no
  space (such as \<open>[Key]\<close>) makes the unpacking of the two-way split fail, and
  \<open>read_headers_only\<close> raises \<open>ValueError\<close>; it neither returns a header set nor
  skips the line.
\<close>

theorem scanner_raises_on_tag_without_space:
  assumes "startswith line ''[''" and "CHR '' '' \<notin> set line"
  shows "read_headers_only (line # rest) = Inl ValueError"
proof -
  have "CHR '' '' \<notin> set (slice_1_m2 line)"
    using assms(2) set_slice by blast
  then have "split1 (CHR '' '') (slice_1_m2 line) = [slice_1_m2 line]"
    by (simp add: split1_def)
  then show ?thesis
    using assms(1) not_blank_bracket [OF assms(1)]
    by (simp add: read_headers_only_def)
qed

theorem scanner_raises_on_tag_without_space_witness:
  "startswith ''[Key]'' ''['' \<and> CHR '' '' \<notin> set ''[Key]'' \<and>
   read_headers_only [''[Key]'', ''[Event \"Rated Classical game\"]''] = Inl ValueError"
  using scanner_raises_on_tag_without_space [of "''[Key]''" "[''[Event \"Rated Classical game\"]'']"]
  by (simp add: startswith_def)

section \<open>The filter predicate on a superscript digit\<close>

text \<open>
  The predicate in the words of the specification: an Elo field counts when it is
  present, is a non-empty string of decimal digits and its value reaches the
  threshold. Where no Elo field holds a superscript digit or more than 4300 digits,
  \<open>headers_pass\<close> raises nothing and is this predicate.
\<close>

definition elo_at_least :: "string option \<Rightarrow> int \<Rightarrow> bool" where
  "elo_at_least field m =
     (case field of
        None \<Rightarrow> False
      | Some s \<Rightarrow> s \<noteq> [] \<and> list_all is_decimal s \<and>
                  foldl (\<lambda>a c. 10 * a + digit_val c) 0 s \<ge> m)"

lemma decimal_isdigit: "s \<noteq> [] \<Longrightarrow> list_all is_decimal s \<Longrightarrow> isdigit s"
  by (simp add: isdigit_def isdigit_char_def list_all_iff)

lemma headers_pass_on_decimal_elo:
  assumes "\<forall>s. map_of hs ''WhiteElo'' = Some s \<longrightarrow> isdigit s \<longrightarrow>
               list_all is_decimal s \<and> length s \<le> 4300"
    and "\<forall>s. map_of hs ''BlackElo'' = Some s \<longrightarrow> isdigit s \<longrightarrow>
               list_all is_decimal s \<and> length s \<le> 4300"
  shows "headers_pass hs m =
           Inr (elo_at_least (map_of hs ''WhiteElo'') m \<and> elo_at_least (map_of hs ''BlackElo'') m \<and>
                map_of hs ''Event'' = Some ''Rated Classical game'')"
proof (cases "map_of hs ''WhiteElo''")
  case None
  then show ?thesis by (simp add: headers_pass_def elo_at_least_def)
next
  case w: (Some w)
  show ?thesis
  proof (cases "map_of hs ''BlackElo''")
    case None
    with w show ?thesis by (simp add: headers_pass_def elo_at_least_def)
  next
    case b: (Some b)
    from assms(1) w have dw: "isdigit w \<Longrightarrow> list_all is_decimal w \<and> length w \<le> 4300" by simp
    from assms(2) b have db: "isdigit b \<Longrightarrow> list_all is_decimal b \<and> length b \<le> 4300" by simp
    show ?thesis
    proof (cases "isdigit w \<and> isdigit b")
      case True
      with dw db have "list_all is_decimal w" "list_all is_decimal b" "w \<noteq> []" "b \<noteq> []"
        "length w \<le> 4300" "length b \<le> 4300"
        by (auto simp: isdigit_def)
      with True w b show ?thesis
        by (simp add: headers_pass_def elo_at_least_def py_int_def)
    next
      case False
      with decimal_isdigit [of w] decimal_isdigit [of b]
      have "\<not> (w \<noteq> [] \<and> list_all is_decimal w) \<or> \<not> (b \<noteq> [] \<and> list_all is_decimal b)"
        by blast
      with False w b show ?thesis
        by (auto simp: headers_pass_def elo_at_least_def)
    qed
  qed
qed

text \<open>
  Claim C3. The predicate is to answer false for every Elo field that is not a number.
  \<open>isdigit\<close> accepts the superscript two, \<open>int\<close> does not: with \<open>WhiteElo\<close> set to
  that character and every other condition met, \<open>headers_pass\<close> raises \<open>ValueError\<close>
  instead of answering false.
\<close>

theorem filter_raises_on_superscript_elo:
  "headers_pass [(''WhiteElo'', [CHR 0xB2]), (''BlackElo'', ''2500''),
                 (''Event'', ''Rated Classical game'')] 2200 = Inl ValueError"
  by (simp add: headers_pass_def isdigit_def isdigit_char_def is_decimal_def py_int_def)

section \<open>Facts about the rows of one game\<close>

lemmas text_defs = strip_def strip_by_def isspace_def startswith_def endswith_def split1_def
  split_def slice_1_m2_def isdigit_def isdigit_char_def is_decimal_def py_int_def digit_val_def

lemma emit_rows_length: "length (emit_rows lib gid res board ms) = length ms"
  by (induction ms arbitrary: board) simp_all

lemma emit_rows_nth:
  "i < length ms \<Longrightarrow>
   emit_rows lib gid res board ms ! i =
     Row gid (fen lib (foldl (push lib) board (take i ms))) (uci lib (ms ! i)) res"
proof (induction ms arbitrary: board i)
  case Nil
  then show ?case by simp
next
  case (Cons m ms)
  show ?case
  proof (cases i)
    case 0
    then show ?thesis by simp
  next
    case (Suc j)
    with Cons.prems have "j < length ms" by simp
    from Cons.IH [OF this, of "push lib board m"] Suc show ?thesis by simp
  qed
qed

text \<open>
  A chess library for the examples: a board is the list of the moves played, its
  encoding their concatenation; the parser reads one line of moves in the encoding
  of the output and the blank line after it.
\<close>

definition history_lib :: "(string list, string) chess_lib" where
  "history_lib =
     \<lparr>start_board = [], push = (\<lambda>b m. b @ [m]), fen = concat, uci = (\<lambda>m. m),
      read_game = (\<lambda>stream. case stream of [] \<Rightarrow> None
                                  | l # _ \<Rightarrow> Some (split (CHR '' '') (strip l), 2))\<rparr>"

section \<open>The numbering of the games\<close>

lemma upto_snoc: "0 \<le> g \<Longrightarrow> [1..g] @ [g + 1] = [1..g + 1]"
  using upto_rec2 [of 1 "g + 1"] by simp

lemma consume_game_ids:
  assumes "consume_game lib elo hs stream st = (e, stream', st')"
    and "ids st = [1..game_id st]" and "0 \<le> game_id st"
  shows "ids st' = [1..game_id st'] \<and> 0 \<le> game_id st'"
  using assms upto_snoc [of "game_id st"]
  by (auto simp: consume_game_def Let_def split: sum.splits if_splits option.splits)

lemma drain_ids:
  "drain lib elo cap stream st = (status, rest, st') \<Longrightarrow>
   ids st = [1..game_id st] \<Longrightarrow> 0 \<le> game_id st \<Longrightarrow>
   ids st' = [1..game_id st'] \<and> 0 \<le> game_id st'"
proof (induction lib elo cap stream st rule: drain.induct)
  case (1 lib elo cap stream st)
  show ?case
  proof (cases "read_headers_only stream")
    case (Inl e)
    with "1.prems" show ?thesis by (simp add: drain.simps [of lib elo cap stream st])
  next
    case (Inr p)
    obtain hs rest0 where p: "p = (hs, rest0)" by (cases p)
    show ?thesis
    proof (cases "hs = []")
      case True
      with Inr p "1.prems" show ?thesis by (simp add: drain.simps [of lib elo cap stream st])
    next
      case False
      obtain e rest1 st1 where c: "consume_game lib elo hs rest0 st = (e, rest1, st1)"
        by (cases "consume_game lib elo hs rest0 st")
      have inv1: "ids st1 = [1..game_id st1] \<and> 0 \<le> game_id st1"
        using consume_game_ids [OF c] "1.prems" by simp
      show ?thesis
      proof (cases e)
        case (Some err)
        with Inr p False c inv1 "1.prems"(1) show ?thesis
          by (simp add: drain.simps [of lib elo cap stream st])
      next
        case None
        show ?thesis
        proof (cases "reached cap (game_id st1)")
          case True
          with None Inr p False c inv1 "1.prems"(1) show ?thesis
            by (simp add: drain.simps [of lib elo cap stream st])
        next
          case stop: False
          with None Inr p False c "1.prems"(1)
          have "drain lib elo cap rest1 st1 = (status, rest, st')"
            by (simp add: drain.simps [of lib elo cap stream st])
          from "1.IH" [OF Inr p [symmetric] False c [symmetric] _ _ stop this] None inv1
          show ?thesis by simp
        qed
      qed
    qed
  qed
qed

lemma process_pgn_file_seen:
  assumes "process_pgn_file lib pgn csv elo cap g sn = (res, csv', sn')"
    and "sn = [1..g]" and "0 \<le> g"
  shows "sn' = [1..int (length sn')] \<and> (\<forall>g'. res = Inr g' \<longrightarrow> sn' = [1..g'] \<and> 0 \<le> g')"
proof (cases pgn)
  case None
  with assms show ?thesis by (auto simp: process_pgn_file_def Let_def)
next
  case (Some stream)
  obtain status rest st where d:
    "drain lib elo cap stream \<lparr>game_id = g, rows = [], ids = sn\<rparr> = (status, rest, st)"
    by (cases "drain lib elo cap stream \<lparr>game_id = g, rows = [], ids = sn\<rparr>")
  from drain_ids [OF d] assms(2,3) have inv: "ids st = [1..game_id st]" "0 \<le> game_id st"
    by simp_all
  then have len: "int (length (ids st)) = game_id st" by simp
  from assms(1) Some d have sn': "sn' = ids st"
    by (cases status) (simp_all add: process_pgn_file_def Let_def)
  from assms(1) Some d have "\<forall>g'. res = Inr g' \<longrightarrow> g' = game_id st"
    by (cases status) (auto simp: process_pgn_file_def Let_def)
  then have res: "\<And>g'. res = Inr g' \<Longrightarrow> g' = game_id st" by simp
  have "sn' = [1..int (length sn')]" using sn' inv(1) len by simp
  moreover have "\<forall>g'. res = Inr g' \<longrightarrow> sn' = [1..g'] \<and> 0 \<le> g'"
    using res sn' inv by blast
  ultimately show ?thesis by blast
qed

lemma main_loop_seen:
  "main_loop lib a remote urls s = (e, r) \<Longrightarrow>
   seen s = [1..next_game_id s] \<Longrightarrow> 0 \<le> next_game_id s \<Longrightarrow>
   seen r = [1..int (length (seen r))] \<and>
   (e = None \<longrightarrow> next_game_id r = int (length (seen r)))"
proof (induction urls arbitrary: s)
  case Nil
  then show ?case by simp
next
  case (Cons url urls)
  have len: "int (length (seen s)) = next_game_id s"
    using Cons.prems(2,3) by simp
  show ?case
  proof (cases "reached (downloads a) (downloaded s)")
    case True
    with Cons.prems len show ?thesis by simp
  next
    case cap: False
    show ?thesis
    proof (cases "filename url \<in> processed_files s")
      case True
      with cap Cons.prems(1) have "main_loop lib a remote urls s = (e, r)" by simp
      from Cons.IH [OF this Cons.prems(2,3)] show ?thesis .
    next
      case new: False
      show ?thesis
      proof (cases "download_file remote url (tmp_dir s)")
        case (Inl err)
        with cap new Cons.prems len show ?thesis by simp
      next
        case (Inr tmp)
        let ?s1 = "s\<lparr>tmp_dir := tmp, downloaded := downloaded s + 1\<rparr>"
        obtain res csv sn where p:
          "process_pgn_file lib (tmp (filename url)) (csv_file s) (min_elo a) (max_games a)
             (next_game_id s) (seen s) = (res, csv, sn)"
          by (cases "process_pgn_file lib (tmp (filename url)) (csv_file s) (min_elo a)
             (max_games a) (next_game_id s) (seen s)")
        from process_pgn_file_seen [OF p Cons.prems(2,3)]
        have sn: "sn = [1..int (length sn)]"
          and ok: "\<And>g'. res = Inr g' \<Longrightarrow> sn = [1..g'] \<and> 0 \<le> g'"
          by simp_all
        show ?thesis
        proof (cases res)
          case (Inl err)
          with cap new Inr p Cons.prems(1) have "e = Some err" "seen r = sn"
            by (auto simp: Let_def)
          with sn show ?thesis by simp
        next
          case (Inr g')
          let ?s2 = "?s1\<lparr>csv_file := csv, seen := sn, next_game_id := g',
                        ledger_file := mark_file_processed (ledger_file ?s1) (filename url),
                        processed_files := insert (filename url) (processed_files ?s1),
                        tmp_dir := (tmp_dir ?s1)(filename url := None)\<rparr>"
          from ok [OF Inr] have inv2: "seen ?s2 = [1..next_game_id ?s2]" "0 \<le> next_game_id ?s2"
            by simp_all
          show ?thesis
          proof (cases "reached (max_games a) g'")
            case True
            with cap new \<open>download_file remote url (tmp_dir s) = Inr tmp\<close> p Inr Cons.prems(1)
            have "e = None" "r = ?s2" by (auto simp: Let_def)
            with inv2 show ?thesis by simp
          next
            case False
            with cap new \<open>download_file remote url (tmp_dir s) = Inr tmp\<close> p Inr Cons.prems(1)
            have "main_loop lib a remote urls ?s2 = (e, r)" by (simp add: Let_def)
            from Cons.IH [OF this inv2] show ?thesis .
          qed
        qed
      qed
    qed
  qed
qed

text \<open>
  Claim C2. In every run the counter advances by exactly one for each game met, kept or
  skipped: the values attached to the games, in the order met, are \<open>1, 2, ..., n\<close>
  with no gap and no repeat, also when the run ends in an exception; a run that ends
  normally leaves the counter at \<open>n\<close>.
\<close>

theorem game_ids_contiguous:
  assumes "main lib a index remote ledger csv tmp = (e, r)"
  shows "seen r = [1..int (length (seen r))] \<and>
         (e = None \<longrightarrow> next_game_id r = int (length (seen r)))"
proof (cases index)
  case None
  with assms show ?thesis by (auto simp: main_def Let_def)
next
  case (Some ls)
  with assms have "main_loop lib a remote (iter_pgn_urls ls)
      \<lparr>ledger_file = ledger, csv_file = setup_output csv, tmp_dir = tmp,
       processed_files = load_processed_files ledger,
       next_game_id = 0, downloaded = 0, seen = []\<rparr> = (e, r)"
    by (simp add: main_def Let_def)
  from main_loop_seen [OF this] show ?thesis by simp
qed

text \<open>An archive of two games for the examples: the first is kept, the second is not.\<close>

definition two_games :: archive where
  "two_games =
     [''[Event \"Rated Classical game\"]'' @ [CHR 0x0A],
      ''[WhiteElo \"2300\"]'' @ [CHR 0x0A],
      ''[BlackElo \"2250\"]'' @ [CHR 0x0A],
      ''[Result \"1-0\"]'' @ [CHR 0x0A],
      [CHR 0x0A],
      ''e2e4 e7e5 g1f3'' @ [CHR 0x0A],
      [CHR 0x0A],
      ''[Event \"Rated Blitz game\"]'' @ [CHR 0x0A],
      ''[WhiteElo \"2400\"]'' @ [CHR 0x0A],
      ''[BlackElo \"2500\"]'' @ [CHR 0x0A],
      ''[Result \"0-1\"]'' @ [CHR 0x0A],
      [CHR 0x0A],
      ''d2d4 d7d5'' @ [CHR 0x0A],
      [CHR 0x0A]]"

lemmas run_defs = main_def Let_def two_games_def text_defs filename_def setup_output_def
  load_processed_files_def file_lines_def download_file_def process_pgn_file_def
  read_headers_only_def consume_game_def headers_pass_def reached_def history_lib_def
  mark_file_processed_def

theorem game_ids_contiguous_witness:
  "fst (main history_lib \<lparr>min_elo = 2200, max_games = None, downloads = None\<rparr>
          (Some [''https://database.lichess.org/standard/a.pgn.zst''])
          (\<lambda>url. Some two_games) None None (\<lambda>name. None)) = None \<and>
   seen (snd (main history_lib \<lparr>min_elo = 2200, max_games = None, downloads = None\<rparr>
          (Some [''https://database.lichess.org/standard/a.pgn.zst''])
          (\<lambda>url. Some two_games) None None (\<lambda>name. None))) = [1, 2] \<and>
   next_game_id (snd (main history_lib \<lparr>min_elo = 2200, max_games = None, downloads = None\<rparr>
          (Some [''https://database.lichess.org/standard/a.pgn.zst''])
          (\<lambda>url. Some two_games) None None (\<lambda>name. None))) = 2"
proof -
  let ?run = "main history_lib \<lparr>min_elo = 2200, max_games = None, downloads = None\<rparr>
          (Some [''https://database.lichess.org/standard/a.pgn.zst''])
          (\<lambda>url. Some two_games) None None (\<lambda>name. None)"
  have e: "fst ?run = None" by (simp add: run_defs)
  have len: "length (seen (snd ?run)) = 2" by (simp add: run_defs)
  have up: "[1..2] = [1, 2::int]" by (simp add: upto.simps)
  from game_ids_contiguous [OF prod.collapse [symmetric], of history_lib
      "\<lparr>min_elo = 2200, max_games = None, downloads = None\<rparr>"
      "Some [''https://database.lichess.org/standard/a.pgn.zst'']"
      "\<lambda>url. Some two_games" None None "\<lambda>name. None"] e len up
  show ?thesis by simp
qed

lemma main_loop_all_done:
  "\<forall>u \<in> set urls. filename u \<in> processed_files s \<Longrightarrow> main_loop lib a remote urls s = (None, s)"
  by (induction urls) simp_all

definition data_rows :: "csv_line list option \<Rightarrow> csv_line list" where
  "data_rows csv = (case csv of None \<Rightarrow> [] | Some ls \<Rightarrow> filter (\<lambda>l. l \<noteq> Header) ls)"

lemma data_rows_setup_output: "data_rows (setup_output csv) = data_rows csv"
  by (cases csv) (simp_all add: data_rows_def setup_output_def)

section \<open>A run over archives that are all in the ledger\<close>

text \<open>
  Claim C6. When the file name of every enumerated archive is already in the ledger,
  the run skips them all: nothing is downloaded, no row is written (the table only
  gets its header row if it did not exist), the ledger is as before and the counters
  stay at zero.
\<close>

theorem rerun_on_ledgered_archives_changes_nothing:
  assumes "\<forall>u \<in> set (iter_pgn_urls ls). filename u \<in> load_processed_files ledger"
  shows "main lib a (Some ls) remote ledger csv tmp =
           (None, \<lparr>ledger_file = ledger, csv_file = setup_output csv, tmp_dir = tmp,
                   processed_files = load_processed_files ledger,
                   next_game_id = 0, downloaded = 0, seen = []\<rparr>) \<and>
         data_rows (setup_output csv) = data_rows csv"
  using assms by (simp add: main_def Let_def main_loop_all_done data_rows_setup_output)

theorem rerun_on_ledgered_archives_changes_nothing_witness:
  "set (map filename (iter_pgn_urls [''https://database.lichess.org/standard/a.pgn.zst'', ''index.html'']))
     \<subseteq> load_processed_files (Some ''a.pgn.zst\<newline>'') \<and>
   main history_lib \<lparr>min_elo = 2200, max_games = None, downloads = None\<rparr>
     (Some [''https://database.lichess.org/standard/a.pgn.zst'', ''index.html''])
     (\<lambda>url. Some two_games) (Some ''a.pgn.zst\<newline>'')
     (Some [Header, Row 1 [] ''e2e4'' (Some ''1-0'')]) (\<lambda>name. None) =
   (None, \<lparr>ledger_file = Some ''a.pgn.zst\<newline>'',
           csv_file = Some [Header, Row 1 [] ''e2e4'' (Some ''1-0'')],
           tmp_dir = (\<lambda>name. None), processed_files = {''a.pgn.zst''},
           next_game_id = 0, downloaded = 0, seen = []\<rparr>)"
proof -
  have l: "load_processed_files (Some ''a.pgn.zst\<newline>'') = {''a.pgn.zst''}"
    by (simp add: load_processed_files_def file_lines_def text_defs)
  have u: "iter_pgn_urls [''https://database.lichess.org/standard/a.pgn.zst'', ''index.html'']
           = [''https://database.lichess.org/standard/a.pgn.zst'']"
    by (simp add: text_defs)
  have f: "filename ''https://database.lichess.org/standard/a.pgn.zst'' = ''a.pgn.zst''"
    by (simp add: filename_def split_def)
  have h: "\<forall>u \<in> set (iter_pgn_urls [''https://database.lichess.org/standard/a.pgn.zst'', ''index.html'']).
             filename u \<in> load_processed_files (Some ''a.pgn.zst\<newline>'')"
    unfolding u by (simp add: l f)
  have s1: "set (map filename (iter_pgn_urls [''https://database.lichess.org/standard/a.pgn.zst'', ''index.html'']))
     \<subseteq> load_processed_files (Some ''a.pgn.zst\<newline>'')"
    unfolding u by (simp add: l f)
  from rerun_on_ledgered_archives_changes_nothing [OF h, of history_lib
      "\<lparr>min_elo = 2200, max_games = None, downloads = None\<rparr>" "\<lambda>url. Some two_games"
      "Some [Header, Row 1 [] ''e2e4'' (Some ''1-0'')]" "\<lambda>name. None"]
  have c: "main history_lib \<lparr>min_elo = 2200, max_games = None, downloads = None\<rparr>
     (Some [''https://database.lichess.org/standard/a.pgn.zst'', ''index.html''])
     (\<lambda>url. Some two_games) (Some ''a.pgn.zst\<newline>'')
     (Some [Header, Row 1 [] ''e2e4'' (Some ''1-0'')]) (\<lambda>name. None) =
   (None, \<lparr>ledger_file = Some ''a.pgn.zst\<newline>'',
           csv_file = Some [Header, Row 1 [] ''e2e4'' (Some ''1-0'')],
           tmp_dir = (\<lambda>name. None), processed_files = {''a.pgn.zst''},
           next_game_id = 0, downloaded = 0, seen = []\<rparr>)"
    unfolding l setup_output_def by simp
  show ?thesis using s1 c by - (intro conjI; assumption)
qed

section \<open>Stopping in the middle of an archive\<close>

text \<open>
  Claim C1. An archive is to be ledgered and deleted only once it is drained. With
  \<open>max_games = 1\<close> and an archive of two games, the loop stops after the first game
  with the second still unread, and \<open>main\<close> nevertheless appends the name to the
  ledger and removes the local file.
\<close>

theorem max_games_stop_ledgers_partial_archive:
  "fst (drain history_lib 2200 (Some 1) two_games \<lparr>game_id = 0, rows = [], ids = []\<rparr>) = Stopped \<and>
   fst (snd (drain history_lib 2200 (Some 1) two_games \<lparr>game_id = 0, rows = [], ids = []\<rparr>)) \<noteq> [] \<and>
   ledger_file (snd (main history_lib \<lparr>min_elo = 2200, max_games = Some 1, downloads = None\<rparr>
       (Some [''https://database.lichess.org/standard/a.pgn.zst''])
       (\<lambda>url. Some two_games) None None (\<lambda>name. None))) = Some ''a.pgn.zst\<newline>'' \<and>
   tmp_dir (snd (main history_lib \<lparr>min_elo = 2200, max_games = Some 1, downloads = None\<rparr>
       (Some [''https://database.lichess.org/standard/a.pgn.zst''])
       (\<lambda>url. Some two_games) None None (\<lambda>name. None))) ''a.pgn.zst'' = None"
  by (simp add: run_defs)

section \<open>What the header scanner returns\<close>

text \<open>
  The words of the specification for one call of the scanner. The block is the run of
  lines before the first blank line (or the end of the stream); the tag lines are its
  lines that start with a bracket. Of a tag line without its first and its last two
  characters, the key is the part before the first space and the value is the rest
  after that space, without the quote characters at both ends.
\<close>

definition is_blank :: "string \<Rightarrow> bool" where
  "is_blank line = (line = [] \<or> strip line = [])"

definition header_block :: "string list \<Rightarrow> string list" where
  "header_block stream = takeWhile (\<lambda>l. \<not> is_blank l) stream"

definition after_block :: "string list \<Rightarrow> string list" where
  "after_block stream = drop 1 (dropWhile (\<lambda>l. \<not> is_blank l) stream)"

definition tag_lines :: "string list \<Rightarrow> string list" where
  "tag_lines stream = filter (\<lambda>l. startswith l ''['') (header_block stream)"

definition tag_key :: "string \<Rightarrow> string" where
  "tag_key line = takeWhile (\<lambda>c. c \<noteq> CHR '' '') (slice_1_m2 line)"

definition tag_value :: "string \<Rightarrow> string" where
  "tag_value line =
     strip_by (\<lambda>c. c = CHR 0x22) (drop 1 (dropWhile (\<lambda>c. c \<noteq> CHR '' '') (slice_1_m2 line)))"

definition set_tag :: "headers \<Rightarrow> string \<Rightarrow> headers" where
  "set_tag hs line = AList.update (tag_key line) (tag_value line) hs"

lemma update_not_Nil: "AList.update k v al \<noteq> []"
  by (cases al) auto

lemma foldl_set_tag_not_Nil: "hs \<noteq> [] \<Longrightarrow> foldl set_tag hs ls \<noteq> []"
  by (induction ls arbitrary: hs) (simp_all add: set_tag_def update_not_Nil)

lemma foldl_set_tag_Nil_iff: "foldl set_tag [] ls = [] \<longleftrightarrow> ls = []"
  by (cases ls) (simp_all add: foldl_set_tag_not_Nil set_tag_def update_not_Nil)

lemma read_headers_loop_block:
  "\<forall>l \<in> set (tag_lines stream). CHR '' '' \<in> set (slice_1_m2 l) \<Longrightarrow>
   read_headers_loop hs stream = Inr (foldl set_tag hs (tag_lines stream), after_block stream)"
proof (induction stream arbitrary: hs)
  case Nil
  then show ?case by (simp add: tag_lines_def header_block_def after_block_def)
next
  case (Cons line rest)
  show ?case
  proof (cases "is_blank line")
    case True
    then have "tag_lines (line # rest) = []" and "after_block (line # rest) = rest"
      by (simp_all add: tag_lines_def header_block_def after_block_def)
    moreover from True have "line = [] \<or> strip line = []" by (simp add: is_blank_def)
    ultimately show ?thesis by auto
  next
    case nb: False
    then have tl: "tag_lines (line # rest) =
        (if startswith line ''['' then line # tag_lines rest else tag_lines rest)"
      and ab: "after_block (line # rest) = after_block rest"
      by (simp_all add: tag_lines_def header_block_def after_block_def)
    from nb have nb': "\<not> (line = [] \<or> strip line = [])" by (simp add: is_blank_def)
    show ?thesis
    proof (cases "startswith line ''[''")
      case True
      with Cons.prems tl have sp: "CHR '' '' \<in> set (slice_1_m2 line)"
        and rest: "\<forall>l \<in> set (tag_lines rest). CHR '' '' \<in> set (slice_1_m2 l)"
        by simp_all
      from sp have "split1 (CHR '' '') (slice_1_m2 line) =
          [takeWhile (\<lambda>x. x \<noteq> CHR '' '') (slice_1_m2 line),
           tl (dropWhile (\<lambda>x. x \<noteq> CHR '' '') (slice_1_m2 line))]"
        by (simp add: split1_def)
      with True nb' Cons.IH [OF rest] tl ab show ?thesis
        by (simp add: set_tag_def tag_key_def tag_value_def drop_Suc)
    next
      case False
      with Cons.prems tl have "\<forall>l \<in> set (tag_lines rest). CHR '' '' \<in> set (slice_1_m2 l)"
        by simp
      with False nb' Cons.IH tl ab show ?thesis by simp
    qed
  qed
qed

lemma strip_by_snoc: "P c \<Longrightarrow> strip_by P (s @ [c]) = strip_by P s"
proof (cases "\<forall>x \<in> set s. P x")
  case True
  assume "P c"
  with True have "strip_by P (s @ [c]) = []" by (simp add: strip_by_empty_iff)
  moreover from True have "strip_by P s = []" by (simp add: strip_by_empty_iff)
  ultimately show ?thesis by simp
next
  case False
  assume c: "P c"
  from False obtain x where "x \<in> set s" "\<not> P x" by blast
  then have "dropWhile P (s @ [c]) = dropWhile P s @ [c]"
    by (rule dropWhile_append1)
  with c show ?thesis by (simp add: strip_by_def)
qed

lemma strip_by_cons: "P c \<Longrightarrow> strip_by P (c # s) = strip_by P s"
  by (simp add: strip_by_def)

lemma takeWhile_until: "c \<notin> set k \<Longrightarrow> takeWhile (\<lambda>x. x \<noteq> c) (k @ c # r) = k"
  by (induction k) auto

lemma dropWhile_until: "c \<notin> set k \<Longrightarrow> dropWhile (\<lambda>x. x \<noteq> c) (k @ c # r) = c # r"
  by (induction k) auto

lemma slice_1_m2_wrap: "slice_1_m2 (a # body @ [y, z]) = body"
  by (simp add: slice_1_m2_def)

lemma read_headers_loop_raises:
  "\<not> (\<forall>l \<in> set (tag_lines stream). CHR '' '' \<in> set (slice_1_m2 l)) \<Longrightarrow>
   read_headers_loop hs stream = Inl ValueError"
proof (induction stream arbitrary: hs)
  case Nil
  then show ?case by (simp add: tag_lines_def header_block_def)
next
  case (Cons line rest)
  show ?case
  proof (cases "is_blank line")
    case True
    then have "tag_lines (line # rest) = []"
      by (simp add: tag_lines_def header_block_def)
    with Cons.prems show ?thesis by simp
  next
    case nb: False
    then have tl: "tag_lines (line # rest) =
        (if startswith line ''['' then line # tag_lines rest else tag_lines rest)"
      by (simp add: tag_lines_def header_block_def)
    from nb have nb': "\<not> (line = [] \<or> strip line = [])" by (simp add: is_blank_def)
    show ?thesis
    proof (cases "startswith line ''[''")
      case True
      show ?thesis
      proof (cases "CHR '' '' \<in> set (slice_1_m2 line)")
        case sp: True
        with Cons.prems tl True
        have "\<not> (\<forall>l \<in> set (tag_lines rest). CHR '' '' \<in> set (slice_1_m2 l))" by simp
        from Cons.IH [OF this] True nb' sp show ?thesis by (simp add: split1_def)
      next
        case False
        with True nb' show ?thesis by (simp add: split1_def)
      qed
    next
      case False
      with Cons.prems tl
      have "\<not> (\<forall>l \<in> set (tag_lines rest). CHR '' '' \<in> set (slice_1_m2 l))" by simp
      from Cons.IH [OF this] False nb' show ?thesis by simp
    qed
  qed
qed

lemma tag_of_bracketed_line:
  assumes "CHR '' '' \<notin> set k"
  shows "tag_key (''['' @ k @ '' '' @ [CHR 0x22] @ v @ [CHR 0x22] @ '']'' @ [c]) = k"
    and "tag_value (''['' @ k @ '' '' @ [CHR 0x22] @ v @ [CHR 0x22] @ '']'' @ [c]) =
           strip_by (\<lambda>c. c = CHR 0x22) v"
proof -
  let ?line = "''['' @ k @ '' '' @ [CHR 0x22] @ v @ [CHR 0x22] @ '']'' @ [c]"
  have l: "?line = CHR ''['' # (k @ CHR '' '' # (CHR 0x22 # v @ [CHR 0x22])) @ [CHR '']'', c]"
    by simp
  have body: "slice_1_m2 ?line = k @ CHR '' '' # (CHR 0x22 # v @ [CHR 0x22])"
    by (subst l) (rule slice_1_m2_wrap)
  from assms have tw: "takeWhile (\<lambda>c. c \<noteq> CHR '' '') (k @ CHR '' '' # (CHR 0x22 # v @ [CHR 0x22])) = k"
    by (rule takeWhile_until)
  from assms have dw: "dropWhile (\<lambda>c. c \<noteq> CHR '' '') (k @ CHR '' '' # (CHR 0x22 # v @ [CHR 0x22]))
      = CHR '' '' # (CHR 0x22 # v @ [CHR 0x22])"
    by (rule dropWhile_until)
  show "tag_key ?line = k"
    unfolding tag_key_def body by (rule tw)
  have "strip_by (\<lambda>c. c = CHR 0x22) (CHR 0x22 # v @ [CHR 0x22]) = strip_by (\<lambda>c. c = CHR 0x22) v"
    using strip_by_snoc [of "\<lambda>c. c = CHR 0x22" "CHR 0x22" v]
    by (simp add: strip_by_cons)
  then show "tag_value ?line = strip_by (\<lambda>c. c = CHR 0x22) v"
    unfolding tag_value_def body dw by simp
qed

text \<open>
  Claim C8, as the program has it. The scanner reads up to and including the first
  blank line, or to the end of the stream. If a tag line of the block holds no space
  after slicing it raises; otherwise it returns the header set built from the tag
  lines of the block, in order, a later line replacing the value of a key set before,
  and leaves the cursor after the blank line. The set is empty exactly when the block
  holds no tag line: always at the end of the stream, but also at a blank line with
  games still unread behind it. A line \<open>[Key "Value"]\<close> followed by exactly one
  terminator character sets \<open>Key\<close> to \<open>Value\<close> without the quote characters at
  its ends.
\<close>

theorem header_scanner_builds_header_set:
  "read_headers_only stream =
     (if \<forall>l \<in> set (tag_lines stream). CHR '' '' \<in> set (slice_1_m2 l)
      then Inr (foldl set_tag [] (tag_lines stream), after_block stream)
      else Inl ValueError) \<and>
   (foldl set_tag [] (tag_lines stream) = [] \<longleftrightarrow> tag_lines stream = []) \<and>
   (stream = [] \<longrightarrow> tag_lines stream = []) \<and>
   (CHR '' '' \<notin> set k \<longrightarrow>
      set_tag hs (''['' @ k @ '' '' @ [CHR 0x22] @ v @ [CHR 0x22] @ '']'' @ [c]) =
        AList.update k (strip_by (\<lambda>c. c = CHR 0x22) v) hs)"
proof -
  have "read_headers_only stream =
     (if \<forall>l \<in> set (tag_lines stream). CHR '' '' \<in> set (slice_1_m2 l)
      then Inr (foldl set_tag [] (tag_lines stream), after_block stream)
      else Inl ValueError)"
    unfolding read_headers_only_def
    using read_headers_loop_block [of stream "[]"] read_headers_loop_raises [of stream "[]"]
    by (cases "\<forall>l \<in> set (tag_lines stream). CHR '' '' \<in> set (slice_1_m2 l)") simp_all
  moreover have "stream = [] \<longrightarrow> tag_lines stream = []"
    by (simp add: tag_lines_def header_block_def)
  moreover have "CHR '' '' \<notin> set k \<longrightarrow>
      set_tag hs (''['' @ k @ '' '' @ [CHR 0x22] @ v @ [CHR 0x22] @ '']'' @ [c]) =
        AList.update k (strip_by (\<lambda>c. c = CHR 0x22) v) hs"
    unfolding set_tag_def using tag_of_bracketed_line [of k v c] by simp
  ultimately show ?thesis
    using foldl_set_tag_Nil_iff [of "tag_lines stream"] by blast
qed

theorem header_scanner_builds_header_set_witness:
  "list_all (\<lambda>l. CHR '' '' \<in> set (slice_1_m2 l)) (tag_lines two_games) \<and>
   read_headers_only two_games =
     Inr ([(''Event'', ''Rated Classical game''), (''WhiteElo'', ''2300''),
           (''BlackElo'', ''2250''), (''Result'', ''1-0'')], drop 5 two_games) \<and>
   CHR '' '' \<notin> set ''Event'' \<and>
   set_tag [] (''[Event \"x\"]'' @ [CHR 0x0A]) = [(''Event'', ''x'')]"
proof -
  have t: "tag_lines two_games = take 4 two_games"
    by (simp add: tag_lines_def header_block_def is_blank_def two_games_def text_defs)
  have h: "list_all (\<lambda>l. CHR '' '' \<in> set (slice_1_m2 l)) (tag_lines two_games)"
    unfolding t by (simp add: two_games_def text_defs)
  have c: "read_headers_only two_games =
     Inr ([(''Event'', ''Rated Classical game''), (''WhiteElo'', ''2300''),
           (''BlackElo'', ''2250''), (''Result'', ''1-0'')], drop 5 two_games)"
    by (simp add: read_headers_only_def two_games_def text_defs)
  have k: "CHR '' '' \<notin> set ''Event''" by simp
  have v: "set_tag [] (''[Event \"x\"]'' @ [CHR 0x0A]) = [(''Event'', ''x'')]"
    by (simp add: set_tag_def tag_key_def tag_value_def text_defs)
  show ?thesis
    using header_scanner_builds_header_set [of two_games "''Event''" "[]" "''x''" "CHR 0x0A"] h c k v
    by - (intro conjI; assumption)
qed

text \<open>
  The claim as stated fails twice. A stream that starts with a blank line gives the
  empty set although a game follows; and on a tag line that ends in a carriage return
  and a newline the slice leaves the closing quote and bracket in the value.
\<close>

theorem header_scanner_empty_not_drained_counterexample:
  "read_headers_only [[CHR 0x0A], ''[Event \"x\"]'' @ [CHR 0x0A]] =
     Inr ([], [''[Event \"x\"]'' @ [CHR 0x0A]]) \<and>
   read_headers_only [''[Event \"x\"]'' @ [CHR 0x0D, CHR 0x0A]] =
     Inr ([(''Event'', ''x\"]'')], [])"
  by (simp add: read_headers_only_def text_defs)

section \<open>What the archive enumerator yields\<close>

lemma endswith_last:
  assumes "endswith l (p @ [c])"
  shows "l \<noteq> []" and "last l = c"
proof -
  from assms have len: "length (p @ [c]) \<le> length l"
    and d: "drop (length l - length (p @ [c])) l = p @ [c]"
    by (simp_all add: endswith_def)
  from len show ne: "l \<noteq> []" by auto
  have "l = take (length l - length (p @ [c])) l @ drop (length l - length (p @ [c])) l"
    by simp
  with d have "l = take (length l - length (p @ [c])) l @ p @ [c]" by simp
  then have "last l = last (take (length l - length (p @ [c])) l @ p @ [c])" by simp
  then show "last l = c" by simp
qed

lemma strip_by_last:
  assumes "s \<noteq> []" and "\<not> P (last s)"
  shows "strip_by P s = dropWhile P s"
proof -
  from assms have "\<exists>x \<in> set s. \<not> P x" using last_in_set by blast
  then have ne: "dropWhile P s \<noteq> []" by (simp add: dropWhile_eq_Nil_conv)
  have "s = takeWhile P s @ dropWhile P s" by simp
  with ne have "last s = last (dropWhile P s)"
    by (metis last_appendR)
  with assms(2) ne have "\<not> P (hd (rev (dropWhile P s)))"
    by (simp add: hd_rev)
  with ne have "dropWhile P (rev (dropWhile P s)) = rev (dropWhile P s)"
    by (cases "rev (dropWhile P s)") simp_all
  then show ?thesis by (simp add: strip_by_def)
qed

lemma strip_suffix_line:
  assumes "endswith l ''.pgn.zst''"
  shows "strip l = dropWhile isspace l"
proof -
  from assms have "endswith l (''.pgn.zs'' @ [CHR ''t''])" by simp
  from endswith_last [OF this] have "l \<noteq> []" "last l = CHR ''t''" by simp_all
  then show ?thesis
    unfolding strip_def by (intro strip_by_last) (simp_all add: isspace_def)
qed

lemma iter_pgn_urls_filter:
  "iter_pgn_urls ls = map (dropWhile isspace) (filter (\<lambda>l. endswith l ''.pgn.zst'') ls)"
proof (induction ls)
  case Nil
  show ?case by simp
next
  case (Cons l ls)
  have "endswith l ''.pgn.zst'' \<Longrightarrow> l \<noteq> []"
    by (auto simp: endswith_def)
  with Cons show ?case
    by (auto simp: strip_suffix_line)
qed

lemma split_acc_not_Nil: "split_acc c cur s \<noteq> []"
  by (induction s arbitrary: cur) simp_all

lemma split_acc_last_segment:
  "c \<notin> set cur \<Longrightarrow>
   \<exists>p. rev cur @ s = p @ last (split_acc c cur s) \<and> (p = [] \<or> last p = c) \<and>
       c \<notin> set (last (split_acc c cur s))"
proof (induction s arbitrary: cur)
  case Nil
  then show ?case by simp
next
  case (Cons x xs)
  show ?case
  proof (cases "x = c")
    case True
    from Cons.IH [of "[]"] obtain p' where p':
      "xs = p' @ last (split_acc c [] xs)" "p' = [] \<or> last p' = c"
      "c \<notin> set (last (split_acc c [] xs))"
      by auto
    let ?p = "rev cur @ c # p'"
    have "rev cur @ x # xs = ?p @ last (split_acc c [] xs)"
      using True p'(1) by simp
    moreover have "last ?p = c" using p'(2) by auto
    moreover have "last (split_acc c cur (x # xs)) = last (split_acc c [] xs)"
      using True split_acc_not_Nil [of c "[]" xs] by simp
    ultimately have "rev cur @ x # xs = ?p @ last (split_acc c cur (x # xs)) \<and>
        (?p = [] \<or> last ?p = c) \<and> c \<notin> set (last (split_acc c cur (x # xs)))"
      using p'(3) by simp
    then show ?thesis by blast
  next
    case False
    with Cons.prems have "c \<notin> set (x # cur)" by simp
    from Cons.IH [OF this] False show ?thesis by simp
  qed
qed

lemma filename_last_segment:
  "\<exists>p. url = p @ filename url \<and> (p = [] \<or> last p = CHR ''/'') \<and> CHR ''/'' \<notin> set (filename url)"
  using split_acc_last_segment [of "CHR ''/''" "[]" url]
  by (simp add: filename_def split_def)

text \<open>
  Claim C9, as the program has it. The enumerator yields, in the order of the index,
  the lines that end in \<open>.pgn.zst\<close>, each without its leading whitespace (the
  \<open>strip\<close> of the program; such a line has no trailing whitespace). The file name of an
  archive is the last segment of its URL: what follows the last slash, or the whole
  URL when it holds none. \<open>download_file\<close> stores and finds the archive under this
  name, and \<open>main\<close> uses it as the key of the ledger.
\<close>

theorem enumerator_yields_suffix_lines:
  "iter_pgn_urls ls = map (dropWhile isspace) (filter (\<lambda>l. endswith l ''.pgn.zst'') ls) \<and>
   (\<exists>p. url = p @ filename url \<and> (p = [] \<or> last p = CHR ''/'') \<and>
        CHR ''/'' \<notin> set (filename url)) \<and>
   download_file remote url tmp =
     (case tmp (filename url) of
        Some a \<Rightarrow> Inr tmp
      | None \<Rightarrow> (case remote url of None \<Rightarrow> Inl FetchError
                                 | Some a \<Rightarrow> Inr (tmp(filename url \<mapsto> a))))"
  using iter_pgn_urls_filter [of ls] filename_last_segment [of url]
  by (simp add: download_file_def Let_def)

text \<open>
  The claim as stated, that the lines are yielded as they are, fails on a line that
  starts with a space.
\<close>

theorem enumerator_strips_lines_counterexample:
  "iter_pgn_urls ['' https://database.lichess.org/standard/a.pgn.zst''] \<noteq>
   filter (\<lambda>l. endswith l ''.pgn.zst'') ['' https://database.lichess.org/standard/a.pgn.zst'']"
  by (simp add: text_defs)

text \<open>
  The file name of an enumerated URL is never empty: the URL ends in \<open>.pgn.zst\<close>.
  So \<open>main\<close> never hands \<open>download_file\<close> the URL of a directory.
\<close>

lemma last_dropWhile:
  assumes "s \<noteq> []" and "\<not> P (last s)"
  shows "dropWhile P s \<noteq> []" and "last (dropWhile P s) = last s"
proof -
  from assms have "\<exists>x \<in> set s. \<not> P x" using last_in_set by blast
  then show ne: "dropWhile P s \<noteq> []" by (simp add: dropWhile_eq_Nil_conv)
  have "s = takeWhile P s @ dropWhile P s" by simp
  with ne show "last (dropWhile P s) = last s"
    by (metis last_appendR)
qed

lemma enumerated_filename_not_empty:
  assumes "u \<in> set (iter_pgn_urls ls)"
  shows "filename u \<noteq> []"
proof -
  from assms obtain l where l: "endswith l ''.pgn.zst''" and u: "u = dropWhile isspace l"
    by (auto simp: iter_pgn_urls_filter)
  from l have "endswith l (''.pgn.zs'' @ [CHR ''t''])" by simp
  from endswith_last [OF this] have "l \<noteq> []" "last l = CHR ''t''" by simp_all
  then have "u \<noteq> []" "last u = CHR ''t''"
    unfolding u using last_dropWhile [of l isspace] by (simp_all add: isspace_def)
  from filename_last_segment [of u] obtain p where
    p: "u = p @ filename u" "p = [] \<or> last p = CHR ''/''"
    by blast
  show ?thesis
  proof
    assume "filename u = []"
    with p(1) have "u = p" by simp
    with p(2) \<open>u \<noteq> []\<close> \<open>last u = CHR ''t''\<close> show False by auto
  qed
qed

section \<open>The round trip of the ledger\<close>

lemma universal_newlines_append:
  "a = [] \<or> last a \<noteq> CHR 0x0D \<Longrightarrow>
   universal_newlines (a @ b) = universal_newlines a @ universal_newlines b"
proof (induction a rule: universal_newlines.induct)
  case 1
  show ?case by simp
next
  case (2 c)
  then show ?case by (cases b) simp_all
next
  case (3 c d cs)
  then show ?case by (auto split: if_splits)
qed

lemma universal_newlines_id: "CHR 0x0D \<notin> set s \<Longrightarrow> universal_newlines s = s"
  by (induction s rule: universal_newlines.induct) auto

lemma universal_newlines_last:
  "a \<noteq> [] \<Longrightarrow> last a = CHR 0x0A \<Longrightarrow>
   universal_newlines a \<noteq> [] \<and> last (universal_newlines a) = CHR 0x0A"
proof (induction a rule: universal_newlines.induct)
  case 1
  then show ?case by simp
next
  case (2 c)
  then show ?case by simp
next
  case (3 c d cs)
  then show ?case by (cases cs) (auto split: if_splits)
qed

lemma lines_acc_append:
  "a \<noteq> [] \<Longrightarrow> last a = CHR 0x0A \<Longrightarrow> lines_acc cur (a @ b) = lines_acc cur a @ lines_acc [] b"
proof (induction a arbitrary: cur)
  case Nil
  then show ?case by simp
next
  case (Cons x xs)
  show ?case
  proof (cases "xs = []")
    case True
    with Cons.prems show ?thesis by simp
  next
    case False
    with Cons.prems have "last xs = CHR 0x0A" by simp
    with Cons.IH False show ?thesis by simp
  qed
qed

lemma lines_acc_one:
  "CHR 0x0A \<notin> set s \<Longrightarrow> lines_acc cur (s @ [CHR 0x0A]) = [rev cur @ s @ [CHR 0x0A]]"
  by (induction s arbitrary: cur) auto

lemma file_lines_mark:
  assumes wf: "content = [] \<or> last content = CHR 0x0A"
    and n: "CHR 0x0A \<notin> set name" "CHR 0x0D \<notin> set name"
  shows "file_lines (content @ name @ [CHR 0x0A]) = file_lines content @ [name @ [CHR 0x0A]]"
proof -
  have u: "universal_newlines (name @ [CHR 0x0A]) = name @ [CHR 0x0A]"
    using n(2) by (simp add: universal_newlines_id)
  show ?thesis
  proof (cases "content = []")
    case True
    then show ?thesis using n(1) lines_acc_one [of name "[]"] by (simp add: file_lines_def u)
  next
    case False
    with wf have l: "last content = CHR 0x0A" by simp
    then have "content = [] \<or> last content \<noteq> CHR 0x0D" by simp
    from universal_newlines_append [OF this, of "name @ [CHR 0x0A]"]
    have "universal_newlines (content @ name @ [CHR 0x0A]) =
          universal_newlines content @ name @ [CHR 0x0A]"
      by (simp add: u)
    moreover from universal_newlines_last [OF False l]
    have "lines_acc [] (universal_newlines content @ name @ [CHR 0x0A]) =
          lines_acc [] (universal_newlines content) @ lines_acc [] (name @ [CHR 0x0A])"
      by (intro lines_acc_append) simp_all
    ultimately show ?thesis
      using n(1) lines_acc_one [of name "[]"] by (simp add: file_lines_def)
  qed
qed

text \<open>
  A ledger file is well formed when it is absent, empty or ends with a newline. The
  program never writes another one: every write ends with a newline.
\<close>

definition ledger_wf :: "string option \<Rightarrow> bool" where
  "ledger_wf ledger =
     (case ledger of None \<Rightarrow> True | Some content \<Rightarrow> content = [] \<or> last content = CHR 0x0A)"

lemma load_mark:
  assumes "ledger_wf ledger" and "CHR 0x0A \<notin> set name" and "CHR 0x0D \<notin> set name"
  shows "load_processed_files (mark_file_processed ledger name) =
           load_processed_files ledger \<union> (if strip name = [] then {} else {strip name})"
proof -
  have s: "strip (name @ [CHR 0x0A]) = strip name"
    unfolding strip_def by (rule strip_by_snoc) (simp add: isspace_def)
  show ?thesis
  proof (cases ledger)
    case None
    from file_lines_mark [of "[]" name] assms(2,3)
    have "file_lines (name @ [CHR 0x0A]) = [name @ [CHR 0x0A]]"
      by (simp add: file_lines_def)
    with None s show ?thesis
      by (simp add: load_processed_files_def mark_file_processed_def)
  next
    case (Some content)
    with assms(1) have "content = [] \<or> last content = CHR 0x0A"
      by (simp add: ledger_wf_def)
    from file_lines_mark [OF this assms(2,3)] Some s show ?thesis
      by (auto simp: load_processed_files_def mark_file_processed_def)
  qed
qed

text \<open>
  Claim C7, as the program has it. On a well-formed ledger file and for a name without
  a line break, loading after \<open>mark_file_processed\<close> yields the names loaded before
  together with the name stripped of its surrounding whitespace, if anything is left
  of it; the file stays well formed. So the set contains the name itself, and all the
  names it held, whenever the name is not empty and has no whitespace at its ends.
\<close>

theorem ledger_round_trip:
  assumes "ledger_wf ledger" and "CHR 0x0A \<notin> set name" and "CHR 0x0D \<notin> set name"
  shows "load_processed_files (mark_file_processed ledger name) =
           load_processed_files ledger \<union> (if strip name = [] then {} else {strip name}) \<and>
         ledger_wf (mark_file_processed ledger name) \<and>
         (name \<noteq> [] \<and> strip name = name \<longrightarrow>
            name \<in> load_processed_files (mark_file_processed ledger name) \<and>
            load_processed_files ledger \<subseteq> load_processed_files (mark_file_processed ledger name))"
proof -
  note l = load_mark [OF assms]
  have "ledger_wf (mark_file_processed ledger name)"
    by (simp add: ledger_wf_def mark_file_processed_def)
  moreover have "name \<noteq> [] \<and> strip name = name \<longrightarrow>
            name \<in> load_processed_files (mark_file_processed ledger name) \<and>
            load_processed_files ledger \<subseteq> load_processed_files (mark_file_processed ledger name)"
    unfolding l by auto
  ultimately show ?thesis using l by blast
qed

theorem ledger_round_trip_witness:
  "ledger_wf (Some ''a.pgn.zst\<newline>'') \<and> CHR 0x0A \<notin> set ''b.pgn.zst'' \<and>
   CHR 0x0D \<notin> set ''b.pgn.zst'' \<and>
   load_processed_files (mark_file_processed (Some ''a.pgn.zst\<newline>'') ''b.pgn.zst'') =
     {''a.pgn.zst'', ''b.pgn.zst''}"
proof -
  have w: "ledger_wf (Some ''a.pgn.zst\<newline>'')" by (simp add: ledger_wf_def)
  have n: "CHR 0x0A \<notin> set ''b.pgn.zst''" "CHR 0x0D \<notin> set ''b.pgn.zst''" by simp_all
  have a: "load_processed_files (Some ''a.pgn.zst\<newline>'') = {''a.pgn.zst''}"
    by (simp add: load_processed_files_def file_lines_def text_defs)
  have b: "strip ''b.pgn.zst'' = ''b.pgn.zst''" by (simp add: text_defs)
  from ledger_round_trip [OF w n]
  have c: "load_processed_files (mark_file_processed (Some ''a.pgn.zst\<newline>'') ''b.pgn.zst'') =
     {''a.pgn.zst'', ''b.pgn.zst''}"
    unfolding a b by auto
  show ?thesis using w n c by - (intro conjI; assumption)
qed

text \<open>
  The claim as stated fails for a name that starts with a space: the loader strips it.
\<close>

theorem ledger_round_trip_counterexample:
  "'' a.pgn.zst'' \<notin> load_processed_files (mark_file_processed None '' a.pgn.zst'')"
  by (simp add: load_processed_files_def mark_file_processed_def file_lines_def text_defs)

section \<open>One game within the stream processor\<close>

text \<open>
  The rows a table holds, none while it does not exist; and a row written for a game
  numbered after \<open>g\<close>.
\<close>

definition table :: "csv_line list option \<Rightarrow> csv_line list" where
  "table csv = (case csv of None \<Rightarrow> [] | Some ls \<Rightarrow> ls)"

definition later_than :: "int \<Rightarrow> csv_line \<Rightarrow> bool" where
  "later_than g r = (case r of Header \<Rightarrow> False | Row i _ _ _ \<Rightarrow> g < i)"

lemma emit_rows_later: "g < gid \<Longrightarrow> \<forall>r \<in> set (emit_rows lib gid res board ms). later_than g r"
  by (induction ms arbitrary: board) (simp_all add: later_than_def)

lemma later_than_mono: "g \<le> g' \<Longrightarrow> later_than g' r \<Longrightarrow> later_than g r"
  by (cases r) (simp_all add: later_than_def)

lemma consume_game_rows:
  assumes "consume_game lib elo hs stream st = (e, stream', st')"
  shows "game_id st' = game_id st + 1 \<and>
         (\<exists>new. rows st' = rows st @ new \<and> (\<forall>r \<in> set new. later_than (game_id st) r))"
  using assms emit_rows_later [of "game_id st" "game_id st + 1" lib]
  by (auto simp: consume_game_def Let_def split: sum.splits if_splits option.splits)

lemma consume_game_prefix:
  assumes "consume_game lib elo hs stream st = (e, stream', st')"
  shows "consume_game lib elo hs stream (st\<lparr>rows := R @ rows st\<rparr>) =
           (e, stream', st'\<lparr>rows := R @ rows st'\<rparr>)"
  using assms
  by (auto simp: consume_game_def Let_def split: sum.splits if_splits option.splits)

lemma drain_rows_later:
  "drain lib elo cap stream st = (status, rest, st') \<Longrightarrow>
   game_id st \<le> game_id st' \<and>
   (\<exists>new. rows st' = rows st @ new \<and> (\<forall>r \<in> set new. later_than (game_id st) r))"
proof (induction lib elo cap stream st rule: drain.induct)
  case (1 lib elo cap stream st)
  show ?case
  proof (cases "read_headers_only stream")
    case (Inl e)
    with "1.prems" show ?thesis by (simp add: drain.simps [of lib elo cap stream st])
  next
    case (Inr p)
    obtain hs rest0 where p: "p = (hs, rest0)" by (cases p)
    show ?thesis
    proof (cases "hs = []")
      case True
      with Inr p "1.prems" show ?thesis by (simp add: drain.simps [of lib elo cap stream st])
    next
      case False
      obtain e rest1 st1 where c: "consume_game lib elo hs rest0 st = (e, rest1, st1)"
        by (cases "consume_game lib elo hs rest0 st")
      from consume_game_rows [OF c] obtain new1 where
        g1: "game_id st1 = game_id st + 1" and r1: "rows st1 = rows st @ new1"
        and l1: "\<forall>r \<in> set new1. later_than (game_id st) r"
        by blast
      have stop: "st' = st1" if "e \<noteq> None \<or> reached cap (game_id st1)"
        using that Inr p False c "1.prems" 
        by (cases e) (auto simp: drain.simps [of lib elo cap stream st])
      show ?thesis
      proof (cases "e \<noteq> None \<or> reached cap (game_id st1)")
        case True
        from stop [OF True] g1 r1 l1 show ?thesis by auto
      next
        case go: False
        then have e: "e = None" and nr: "\<not> reached cap (game_id st1)" by simp_all
        with Inr p False c "1.prems"
        have d: "drain lib elo cap rest1 st1 = (status, rest, st')"
          by (simp add: drain.simps [of lib elo cap stream st])
        from "1.IH" [OF Inr p [symmetric] False c [symmetric] _ _ nr d] e
        obtain new2 where g2: "game_id st1 \<le> game_id st'" and r2: "rows st' = rows st1 @ new2"
          and l2: "\<forall>r \<in> set new2. later_than (game_id st1) r"
          by auto
        from l2 g1 have "\<forall>r \<in> set new2. later_than (game_id st) r"
          using later_than_mono [of "game_id st" "game_id st1"] by auto
        with l1 r1 r2 g1 g2 show ?thesis by auto
      qed
    qed
  qed
qed

lemma drain_prefix:
  "drain lib elo cap stream st = (status, rest, st') \<Longrightarrow>
   drain lib elo cap stream (st\<lparr>rows := R @ rows st\<rparr>) = (status, rest, st'\<lparr>rows := R @ rows st'\<rparr>)"
proof (induction lib elo cap stream st arbitrary: rule: drain.induct)
  case (1 lib elo cap stream st)
  let ?st = "st\<lparr>rows := R @ rows st\<rparr>"
  show ?case
  proof (cases "read_headers_only stream")
    case (Inl e)
    with "1.prems" show ?thesis
      by (auto simp: drain.simps [of lib elo cap stream st] drain.simps [of lib elo cap stream ?st])
  next
    case (Inr p)
    obtain hs rest0 where p: "p = (hs, rest0)" by (cases p)
    show ?thesis
    proof (cases "hs = []")
      case True
      with Inr p "1.prems" show ?thesis
        by (auto simp: drain.simps [of lib elo cap stream st] drain.simps [of lib elo cap stream ?st])
    next
      case False
      obtain e rest1 st1 where c: "consume_game lib elo hs rest0 st = (e, rest1, st1)"
        by (cases "consume_game lib elo hs rest0 st")
      note c' = consume_game_prefix [OF c, of R]
      have gid: "game_id (st1\<lparr>rows := R @ rows st1\<rparr>) = game_id st1" by simp
      show ?thesis
      proof (cases "e \<noteq> None \<or> reached cap (game_id st1)")
        case True
        with Inr p False c c' "1.prems" show ?thesis
          by (cases e)
            (auto simp: drain.simps [of lib elo cap stream st] drain.simps [of lib elo cap stream ?st])
      next
        case go: False
        then have e: "e = None" and nr: "\<not> reached cap (game_id st1)" by simp_all
        with Inr p False c "1.prems"
        have d: "drain lib elo cap rest1 st1 = (status, rest, st')"
          by (simp add: drain.simps [of lib elo cap stream st])
        from "1.IH" [OF Inr p [symmetric] False c [symmetric] _ _ nr d] e
        have "drain lib elo cap rest1 (st1\<lparr>rows := R @ rows st1\<rparr>) =
                (status, rest, st'\<lparr>rows := R @ rows st'\<rparr>)"
          by simp
        with Inr p False c' e nr show ?thesis
          by (simp add: drain.simps [of lib elo cap stream ?st])
      qed
    qed
  qed
qed

lemma process_pgn_file_rows:
  "\<exists>later. fst (snd (process_pgn_file lib (Some stream) csv elo cap g sn)) = Some (table csv @ later) \<and>
           (\<forall>r \<in> set later. later_than g r)"
proof -
  obtain status rest st where d:
    "drain lib elo cap stream \<lparr>game_id = g, rows = [], ids = sn\<rparr> = (status, rest, st)"
    by (cases "drain lib elo cap stream \<lparr>game_id = g, rows = [], ids = sn\<rparr>")
  from drain_rows_later [OF d] have "\<forall>r \<in> set (rows st). later_than g r" by auto
  moreover from d have "fst (snd (process_pgn_file lib (Some stream) csv elo cap g sn)) =
      Some (table csv @ rows st)"
    by (cases status) (simp_all add: process_pgn_file_def Let_def table_def)
  ultimately show ?thesis by blast
qed

lemma drain_first_game:
  assumes "read_headers_only stream = Inr (hs, rest)" and "hs \<noteq> []"
    and "consume_game lib elo hs rest st = (None, rest', st')"
  shows "drain lib elo cap stream st =
           (if reached cap (game_id st') then (Stopped, rest', st')
            else drain lib elo cap rest' st')"
  using assms by (simp add: drain.simps [of lib elo cap stream st])

lemma process_pgn_file_continue:
  assumes "drain lib elo cap stream \<lparr>game_id = g, rows = [], ids = sn\<rparr> =
             drain lib elo cap stream' \<lparr>game_id = g', rows = new, ids = sn'\<rparr>"
  shows "process_pgn_file lib (Some stream) csv elo cap g sn =
           process_pgn_file lib (Some stream') (Some (table csv @ new)) elo cap g' sn'"
proof -
  obtain status rest st where d:
    "drain lib elo cap stream' \<lparr>game_id = g', rows = [], ids = sn'\<rparr> = (status, rest, st)"
    by (cases "drain lib elo cap stream' \<lparr>game_id = g', rows = [], ids = sn'\<rparr>")
  from drain_prefix [OF d, of new]
  have "drain lib elo cap stream' \<lparr>game_id = g', rows = new, ids = sn'\<rparr> =
          (status, rest, st\<lparr>rows := new @ rows st\<rparr>)"
    by simp
  with assms d show ?thesis
    by (cases status) (simp_all add: process_pgn_file_def Let_def table_def)
qed

text \<open>
  Claim C4. When the scanner returns a header set that fails the filter predicate,
  \<open>process_pgn_file\<close> writes no row for that game and still advances the counter by
  one: it stops there with the table as it was and the counter one higher, or goes on
  as a call on the stream after the skipped movetext would, from the counter one
  higher and the same table. Every row it writes belongs to a later game.
\<close>

theorem rejected_game_emits_no_rows:
  assumes "read_headers_only stream = Inr (hs, rest)" and "hs \<noteq> []"
    and "headers_pass hs elo = Inr False"
  shows "process_pgn_file lib (Some stream) csv elo cap g sn =
           (if reached cap (g + 1) then (Inr (g + 1), Some (table csv), sn @ [g + 1])
            else process_pgn_file lib (Some (skip_moves rest)) (Some (table csv)) elo cap
                   (g + 1) (sn @ [g + 1])) \<and>
         (\<exists>later. fst (snd (process_pgn_file lib (Some stream) csv elo cap g sn)) =
                    Some (table csv @ later) \<and>
                  (\<forall>r \<in> set later. later_than (g + 1) r))"
proof -
  let ?st = "\<lparr>game_id = g, rows = [], ids = sn\<rparr>"
  let ?st1 = "\<lparr>game_id = g + 1, rows = [], ids = sn @ [g + 1]\<rparr>"
  have c: "consume_game lib elo hs rest ?st = (None, skip_moves rest, ?st1)"
    using assms(3) by (simp add: consume_game_def Let_def)
  note d = drain_first_game [OF assms(1,2) c, of cap]
  show ?thesis
  proof (cases "reached cap (g + 1)")
    case True
    with d have "process_pgn_file lib (Some stream) csv elo cap g sn =
        (Inr (g + 1), Some (table csv), sn @ [g + 1])"
      by (simp add: process_pgn_file_def Let_def table_def)
    with True show ?thesis by simp
  next
    case False
    with d have "drain lib elo cap stream ?st = drain lib elo cap (skip_moves rest) ?st1"
      by simp
    from process_pgn_file_continue [OF this, of csv]
    have eq: "process_pgn_file lib (Some stream) csv elo cap g sn =
        process_pgn_file lib (Some (skip_moves rest)) (Some (table csv)) elo cap (g + 1) (sn @ [g + 1])"
      by simp
    from process_pgn_file_rows [of lib "skip_moves rest" "Some (table csv)" elo cap "g + 1" "sn @ [g + 1]"]
    have "\<exists>later. fst (snd (process_pgn_file lib (Some stream) csv elo cap g sn)) =
                    Some (table csv @ later) \<and> (\<forall>r \<in> set later. later_than (g + 1) r)"
      unfolding eq by (simp add: table_def)
    with eq False show ?thesis by simp
  qed
qed

text \<open>
  Claim C5. When the scanner returns a header set that passes the filter predicate and
  the parser returns \<open>n\<close> mainline moves, \<open>process_pgn_file\<close> appends exactly
  \<open>n\<close> rows for that game to the table, in move order. Row \<open>i\<close> carries the game's
  \<open>game_id\<close>, the encoding of the board reached from the starting position by the
  first \<open>i\<close> moves (the position before ply \<open>i\<close>), the encoding of move \<open>i\<close>
  and the \<open>Result\<close> header. Then it stops, or goes on as a call on the stream after
  the game would; every row written after these belongs to a later game.
\<close>

theorem kept_game_emits_one_row_per_ply:
  assumes "read_headers_only stream = Inr (hs, rest)" and "hs \<noteq> []"
    and "headers_pass hs elo = Inr True"
    and "read_game lib rest = Some (moves, n)"
  shows "\<exists>new later.
           length new = length moves \<and>
           (\<forall>i < length moves.
              new ! i = Row (g + 1)
                            (fen lib (foldl (push lib) (start_board lib) (take i moves)))
                            (uci lib (moves ! i))
                            (map_of hs ''Result'')) \<and>
           process_pgn_file lib (Some stream) csv elo cap g sn =
             (if reached cap (g + 1) then (Inr (g + 1), Some (table csv @ new), sn @ [g + 1])
              else process_pgn_file lib (Some (drop n rest)) (Some (table csv @ new)) elo cap
                     (g + 1) (sn @ [g + 1])) \<and>
           fst (snd (process_pgn_file lib (Some stream) csv elo cap g sn)) =
             Some (table csv @ new @ later) \<and>
           (\<forall>r \<in> set later. later_than (g + 1) r)"
proof -
  let ?new = "emit_rows lib (g + 1) (map_of hs ''Result'') (start_board lib) moves"
  let ?st = "\<lparr>game_id = g, rows = [], ids = sn\<rparr>"
  let ?st1 = "\<lparr>game_id = g + 1, rows = ?new, ids = sn @ [g + 1]\<rparr>"
  have len: "length ?new = length moves" by (rule emit_rows_length)
  have nth: "\<forall>i < length moves.
              ?new ! i = Row (g + 1)
                            (fen lib (foldl (push lib) (start_board lib) (take i moves)))
                            (uci lib (moves ! i))
                            (map_of hs ''Result'')"
    by (simp add: emit_rows_nth)
  have c: "consume_game lib elo hs rest ?st = (None, drop n rest, ?st1)"
    using assms(3,4) by (simp add: consume_game_def Let_def)
  note d = drain_first_game [OF assms(1,2) c, of cap]
  have "process_pgn_file lib (Some stream) csv elo cap g sn =
             (if reached cap (g + 1) then (Inr (g + 1), Some (table csv @ ?new), sn @ [g + 1])
              else process_pgn_file lib (Some (drop n rest)) (Some (table csv @ ?new)) elo cap
                     (g + 1) (sn @ [g + 1])) \<and>
        (\<exists>later. fst (snd (process_pgn_file lib (Some stream) csv elo cap g sn)) =
             Some (table csv @ ?new @ later) \<and>
           (\<forall>r \<in> set later. later_than (g + 1) r))"
  proof (cases "reached cap (g + 1)")
    case True
    with d have "process_pgn_file lib (Some stream) csv elo cap g sn =
        (Inr (g + 1), Some (table csv @ ?new), sn @ [g + 1])"
      by (simp add: process_pgn_file_def Let_def table_def)
    with True show ?thesis by simp
  next
    case False
    with d have "drain lib elo cap stream ?st = drain lib elo cap (drop n rest) ?st1"
      by simp
    from process_pgn_file_continue [OF this, of csv]
    have eq: "process_pgn_file lib (Some stream) csv elo cap g sn =
        process_pgn_file lib (Some (drop n rest)) (Some (table csv @ ?new)) elo cap (g + 1) (sn @ [g + 1])"
      by simp
    from process_pgn_file_rows [of lib "drop n rest" "Some (table csv @ ?new)" elo cap "g + 1" "sn @ [g + 1]"]
    have "\<exists>later. fst (snd (process_pgn_file lib (Some stream) csv elo cap g sn)) =
                    Some (table csv @ ?new @ later) \<and> (\<forall>r \<in> set later. later_than (g + 1) r)"
      unfolding eq by (simp add: table_def)
    with eq False show ?thesis by simp
  qed
  with len nth show ?thesis by blast
qed

text \<open>An archive for the examples: the first game is rejected, the second is kept.\<close>

definition rejected_then_kept :: archive where
  "rejected_then_kept =
     [''[Event \"Rated Classical game\"]'' @ [CHR 0x0A],
      ''[WhiteElo \"1800\"]'' @ [CHR 0x0A],
      ''[BlackElo \"2250\"]'' @ [CHR 0x0A],
      ''[Result \"1-0\"]'' @ [CHR 0x0A],
      [CHR 0x0A],
      ''e2e4 e7e5 g1f3'' @ [CHR 0x0A],
      [CHR 0x0A],
      ''[Event \"Rated Classical game\"]'' @ [CHR 0x0A],
      ''[WhiteElo \"2300\"]'' @ [CHR 0x0A],
      ''[BlackElo \"2250\"]'' @ [CHR 0x0A],
      ''[Result \"0-1\"]'' @ [CHR 0x0A],
      [CHR 0x0A],
      ''d2d4 d7d5'' @ [CHR 0x0A],
      [CHR 0x0A]]"

theorem rejected_game_emits_no_rows_witness:
  "read_headers_only rejected_then_kept =
     Inr ([(''Event'', ''Rated Classical game''), (''WhiteElo'', ''1800''),
           (''BlackElo'', ''2250''), (''Result'', ''1-0'')], drop 5 rejected_then_kept) \<and>
   headers_pass [(''Event'', ''Rated Classical game''), (''WhiteElo'', ''1800''),
                 (''BlackElo'', ''2250''), (''Result'', ''1-0'')] 2200 = Inr False \<and>
   process_pgn_file history_lib (Some rejected_then_kept) (Some [Header]) 2200 None 0 [] =
     (Inr 2,
      Some [Header, Row 2 [] ''d2d4'' (Some ''0-1''), Row 2 ''d2d4'' ''d7d5'' (Some ''0-1'')],
      [1, 2])"
proof -
  have s: "read_headers_only rejected_then_kept =
     Inr ([(''Event'', ''Rated Classical game''), (''WhiteElo'', ''1800''),
           (''BlackElo'', ''2250''), (''Result'', ''1-0'')], drop 5 rejected_then_kept)"
    by (simp add: read_headers_only_def rejected_then_kept_def text_defs)
  have ne: "[(''Event'', ''Rated Classical game''), (''WhiteElo'', ''1800''),
           (''BlackElo'', ''2250''), (''Result'', ''1-0'')] \<noteq> []"
    by simp
  have h: "headers_pass [(''Event'', ''Rated Classical game''), (''WhiteElo'', ''1800''),
                 (''BlackElo'', ''2250''), (''Result'', ''1-0'')] 2200 = Inr False"
    by (simp add: headers_pass_def text_defs)
  have c: "process_pgn_file history_lib (Some rejected_then_kept) (Some [Header]) 2200 None 0 [] =
     (Inr 2,
      Some [Header, Row 2 [] ''d2d4'' (Some ''0-1''), Row 2 ''d2d4'' ''d7d5'' (Some ''0-1'')],
      [1, 2])"
    by (simp add: process_pgn_file_def Let_def read_headers_only_def consume_game_def
        headers_pass_def reached_def history_lib_def rejected_then_kept_def text_defs)
  show ?thesis
    using rejected_game_emits_no_rows [OF s ne h, where lib = history_lib and csv = "Some [Header]" and cap = None and g = 0 and sn = "[]"] s h c
    by - (intro conjI; assumption)
qed

theorem kept_game_emits_one_row_per_ply_witness:
  "read_headers_only two_games =
     Inr ([(''Event'', ''Rated Classical game''), (''WhiteElo'', ''2300''),
           (''BlackElo'', ''2250''), (''Result'', ''1-0'')], drop 5 two_games) \<and>
   headers_pass [(''Event'', ''Rated Classical game''), (''WhiteElo'', ''2300''),
                 (''BlackElo'', ''2250''), (''Result'', ''1-0'')] 2200 = Inr True \<and>
   read_game history_lib (drop 5 two_games) = Some ([''e2e4'', ''e7e5'', ''g1f3''], 2) \<and>
   process_pgn_file history_lib (Some two_games) (Some [Header]) 2200 None 0 [] =
     (Inr 2,
      Some [Header, Row 1 [] ''e2e4'' (Some ''1-0''), Row 1 ''e2e4'' ''e7e5'' (Some ''1-0''),
            Row 1 ''e2e4e7e5'' ''g1f3'' (Some ''1-0'')],
      [1, 2])"
proof -
  have s: "read_headers_only two_games =
     Inr ([(''Event'', ''Rated Classical game''), (''WhiteElo'', ''2300''),
           (''BlackElo'', ''2250''), (''Result'', ''1-0'')], drop 5 two_games)"
    by (simp add: read_headers_only_def two_games_def text_defs)
  have ne: "[(''Event'', ''Rated Classical game''), (''WhiteElo'', ''2300''),
           (''BlackElo'', ''2250''), (''Result'', ''1-0'')] \<noteq> []"
    by simp
  have h: "headers_pass [(''Event'', ''Rated Classical game''), (''WhiteElo'', ''2300''),
                 (''BlackElo'', ''2250''), (''Result'', ''1-0'')] 2200 = Inr True"
    by (simp add: headers_pass_def text_defs)
  have r: "read_game history_lib (drop 5 two_games) = Some ([''e2e4'', ''e7e5'', ''g1f3''], 2)"
    by (simp add: history_lib_def two_games_def text_defs)
  have c: "process_pgn_file history_lib (Some two_games) (Some [Header]) 2200 None 0 [] =
     (Inr 2,
      Some [Header, Row 1 [] ''e2e4'' (Some ''1-0''), Row 1 ''e2e4'' ''e7e5'' (Some ''1-0''),
            Row 1 ''e2e4e7e5'' ''g1f3'' (Some ''1-0'')],
      [1, 2])"
    by (simp add: process_pgn_file_def Let_def read_headers_only_def consume_game_def
        headers_pass_def reached_def history_lib_def two_games_def text_defs)
  show ?thesis
    using kept_game_emits_one_row_per_ply [OF s ne h r, where csv = "Some [Header]" and cap = None and g = 0 and sn = "[]"] s h r c
    by - (intro conjI; assumption)
qed

end
